theory Spec2Isabelle
  imports Complex_Main "HOL-Library.Sublist" "HOL-Library.Multiset"
begin

section \<open>Monthly-active-user estimator (\<open>getDAppDetails\<close>)\<close>

text \<open>
  The estimator is the tail of \<open>getDAppDetails\<close>, from \<open>series.slice(-2)\<close> on.
  A point of the series is the JSON array \<open>[timestamp, count]\<close>. The upstream may
  send a point whose second component is absent; reading it gives \<open>undefined\<close>,
  which is \<open>None\<close> here. Timestamps and counts are integers of magnitude below
  \<open>2^53\<close>, which a double holds exactly, as it does the differences of timestamps
  taken here. The quotient, the product and the sum of the extrapolation are IEEE 754
  binary64 operations: the exact result rounded to the nearest double, a tie going
  to the even significand. At these magnitudes no operation overflows or underflows;
  infinities, \<open>NaN\<close> and subnormal numbers are not modelled.
\<close>

type_synonym point = "int \<times> int option"

text \<open>\<open>series.slice(-2)\<close>: the last two elements, or the whole array when it is shorter.\<close>

definition slice_last2 :: "'a list \<Rightarrow> 'a list" where
  "slice_last2 xs = drop (length xs - 2) xs"

text \<open>The number of binary digits of a positive integer.\<close>

function bitLength :: "int \<Rightarrow> int" where
  "bitLength n = (if n \<le> 0 then 0 else 1 + bitLength (n div 2))"
  by pat_completeness auto
termination
  by (relation "measure nat") auto

declare bitLength.simps [simp del]

definition pow2 :: "int \<Rightarrow> rat" where
  "pow2 k = (if 0 \<le> k then 2 ^ nat k else 1 / 2 ^ nat (- k))"

text \<open>For a positive rational \<open>a\<close>, the integer \<open>e\<close> with \<open>2^e \<le> a < 2^(e + 1)\<close>.\<close>

definition floorLog2 :: "rat \<Rightarrow> int" where
  "floorLog2 a =
     (case quotient_of a of
        (n, d) \<Rightarrow>
          (let k = bitLength n - bitLength d
           in if pow2 k \<le> a then k else k - 1))"

definition roundHalfEven :: "rat \<Rightarrow> int" where
  "roundHalfEven x =
     (let f = \<lfloor>x\<rfloor>; r = x - of_int f
      in if r < 1 / 2 then f else if 1 / 2 < r then f + 1 else if even f then f else f + 1)"

text \<open>
  The double nearest to a rational: a significand of 53 binary digits, round to
  nearest, ties to even.
\<close>

definition binary64 :: "rat \<Rightarrow> rat" where
  "binary64 x =
     (if x = 0 then 0
      else
        (let q = floorLog2 \<bar>x\<bar> - 52
         in sgn x * of_int (roundHalfEven (\<bar>x\<bar> / pow2 q)) * pow2 q))"

text \<open>The operators \<open>/\<close>, \<open>*\<close> and \<open>+\<close> of the language on doubles.\<close>

definition js_divide :: "rat \<Rightarrow> rat \<Rightarrow> rat" where
  "js_divide a b = binary64 (a / b)"

definition js_times :: "rat \<Rightarrow> rat \<Rightarrow> rat" where
  "js_times a b = binary64 (a * b)"

definition js_plus :: "rat \<Rightarrow> rat \<Rightarrow> rat" where
  "js_plus a b = binary64 (a + b)"

text \<open>\<open>Math.round\<close>: the nearest integer, a tie going up.\<close>

definition math_round :: "rat \<Rightarrow> int" where
  "math_round x = \<lfloor>x + 1 / 2\<rfloor>"

text \<open>The destructuring default \<open>= 0\<close>: it replaces \<open>undefined\<close> only.\<close>

definition default0 :: "int option \<Rightarrow> int" where
  "default0 c = (case c of None \<Rightarrow> 0 | Some n \<Rightarrow> n)"

definition oneWeekMs :: int where
  "oneWeekMs = 7 * 24 * 3600 * 1000"

text \<open>
  \<open>nextMonthDate\<close> is computed by the runtime's \<open>Date\<close> (\<open>setMonth(getMonth() + 1)\<close>
  in the host's time zone); it is the parameter \<open>addMonth\<close>, from a timestamp to the
  timestamp one calendar month later. The result is the value assigned to
  \<open>estimatedUsersPerMonth\<close>: \<open>Some n\<close> for the number \<open>n\<close>, \<open>None\<close> for
  \<open>undefined\<close>.
\<close>

definition estimatedUsersPerMonth :: "(int \<Rightarrow> int) \<Rightarrow> int \<Rightarrow> point list \<Rightarrow> int option" where
  "estimatedUsersPerMonth addMonth nowTimestamp series =
     (case slice_last2 series of
        [] \<Rightarrow> Some 0
      | [p] \<Rightarrow> snd p
      | (_, prevU) # (currentMonthTimestamp, curU) # _ \<Rightarrow>
          (let prevMonthUsers = default0 prevU;
               currentMonthUsers = default0 curU;
               currentMonthPartMs = nowTimestamp - currentMonthTimestamp
           in if currentMonthPartMs < oneWeekMs then Some prevMonthUsers
              else
                (let nextMonthDate = addMonth currentMonthTimestamp;
                     currentMonthUsersEstimation =
                       math_round
                         (js_times
                            (js_divide (of_int (nextMonthDate - currentMonthTimestamp))
                               (of_int currentMonthPartMs))
                            (of_int currentMonthUsers))
                 in Some (max (math_round
                                 (js_divide
                                    (js_plus (of_int prevMonthUsers)
                                       (of_int currentMonthUsersEstimation))
                                    2))
                              currentMonthUsers))))"

text \<open>A month of \<open>n\<close> days added to a timestamp, for concrete runs.\<close>

definition addDays :: "int \<Rightarrow> int \<Rightarrow> int" where
  "addDays n t = t + n * (24 * 3600 * 1000)"

section \<open>The dApps list (\<open>getDApps\<close>)\<close>






section \<open>Notifications (\<open>getNotifications\<close>)\<close>


datatype NotificationType = News | PlatformUpdate | SecurityNote
























section \<open>The data providers (\<open>SingleQueryDataProvider\<close>, \<open>DataProvider\<close>)\<close>

text \<open>
  The two provider classes (\<open>utils/SingleQueryDataProvider\<close>, \<open>utils/DataProvider\<close>)
  are not among the sources: only their callers are. The definitions of this section
  follow sections 3, 4.1, 4.2 and 5 of the specification. One model serves both
  classes: the single-value provider is the parameterized one at the key type \<open>unit\<close>.
\<close>

text \<open>
  Modelled from the spec: the result of \<open>getState\<close>,
  \<open>{ data: T } | { error: Error }\<close>.
\<close>

datatype ('v, 'e) outcome = Data 'v | Error 'e

text \<open>
  Modelled from the spec: \<open>CacheEntry\<close> (section 3), the last successfully fetched
  payload and the time it was obtained.
\<close>

record 'v CacheEntry =
  entryValue :: 'v
  fetchedAt :: int

text \<open>
  Modelled from the spec: \<open>InFlightFetch\<close> (section 3). The pending future is
  represented by the callers suspended on it, in order of arrival.
\<close>

record 'c InFlightFetch =
  awaiting :: "'c list"

text \<open>
  Modelled from the spec: \<open>ProviderState\<close> (section 3), one per key, created lazily:
  a key never requested has the state \<open>emptyState\<close>.
\<close>

record ('c, 'v) ProviderState =
  entry :: "'v CacheEntry option"
  inFlight :: "'c InFlightFetch option"

definition emptyState :: "('c, 'v) ProviderState" where
  "emptyState = \<lparr>entry = None, inFlight = None\<rparr>"

text \<open>What a call of \<open>getState\<close> gives its caller in the step in which it arrives:
  a value at once, or nothing yet (the caller is suspended on the in-flight fetch).\<close>

datatype 'v reply = Now 'v | Await

text \<open>
  Modelled from the spec: \<open>getState\<close> (section 4.1), the part of it that runs when
  the caller \<open>c\<close> arrives at time \<open>now\<close>, on the state of the key asked for. It returns
  the new state, the reply, and whether the fetch function has been called.
  \<^item> No entry, no fetch in flight: start a fetch, store it as the in-flight fetch,
    await it.
  \<^item> No entry, a fetch in flight: await that fetch (section 5).
  \<^item> An entry younger than the refresh interval: return its value, no fetch.
  \<^item> A stale entry, a fetch in flight: await that same fetch.
  \<^item> A stale entry, no fetch in flight: trigger one fetch and return the stale value
    to this caller.
\<close>

definition getState ::
    "int \<Rightarrow> int \<Rightarrow> 'c \<Rightarrow> ('c, 'v) ProviderState \<Rightarrow> ('c, 'v) ProviderState \<times> 'v reply \<times> bool" where
  "getState refreshInterval now c st =
     (case entry st of
        None \<Rightarrow>
          (case inFlight st of
             None \<Rightarrow> (st\<lparr>inFlight := Some \<lparr>awaiting = [c]\<rparr>\<rparr>, Await, True)
           | Some f \<Rightarrow> (st\<lparr>inFlight := Some (f\<lparr>awaiting := awaiting f @ [c]\<rparr>)\<rparr>, Await, False))
      | Some e \<Rightarrow>
          if now - fetchedAt e < refreshInterval then (st, Now (entryValue e), False)
          else
            (case inFlight st of
               Some f \<Rightarrow> (st\<lparr>inFlight := Some (f\<lparr>awaiting := awaiting f @ [c]\<rparr>)\<rparr>, Await, False)
             | None \<Rightarrow> (st\<lparr>inFlight := Some \<lparr>awaiting = []\<rparr>\<rparr>, Now (entryValue e), True)))"

text \<open>
  Modelled from the spec: the continuation of \<open>getState\<close> that runs when the
  in-flight fetch settles at time \<open>now\<close> (section 4.1, "on success", "on failure").
  On success the result becomes the cache entry, stamped \<open>now\<close>; in both cases the
  in-flight fetch is cleared and every suspended caller is handed the outcome.
\<close>

definition settle ::
    "int \<Rightarrow> ('v, 'e) outcome \<Rightarrow> ('c, 'v) ProviderState
     \<Rightarrow> ('c, 'v) ProviderState \<times> ('c \<times> ('v, 'e) outcome) list" where
  "settle now out st =
     (case inFlight st of
        None \<Rightarrow> (st, [])
      | Some f \<Rightarrow>
          ((case out of
              Data v \<Rightarrow> st\<lparr>entry := Some \<lparr>entryValue = v, fetchedAt = now\<rparr>, inFlight := None\<rparr>
            | Error err \<Rightarrow> st\<lparr>inFlight := None\<rparr>),
           map (\<lambda>c. (c, out)) (awaiting f)))"

text \<open>
  Modelled from the spec: the provider in its environment (section 5: one logical
  thread, tasks interleaved at suspension points). A world holds the clock, the
  provider's map from keys to states, and what an observer sees: the calls of the
  fetch function that have not settled yet (\<open>pending\<close>, one key per call), those that
  have, with their outcomes (\<open>settledLog\<close>), and the results handed to callers
  (\<open>responses\<close>).
\<close>

record ('k, 'c, 'v, 'e) World =
  clock :: int
  states :: "'k \<rightharpoonup> ('c, 'v) ProviderState"
  pending :: "'k list"
  settledLog :: "('k \<times> ('v, 'e) outcome) list"
  responses :: "('c \<times> 'k \<times> ('v, 'e) outcome) list"

definition stateOf :: "('k, 'c, 'v, 'e) World \<Rightarrow> 'k \<Rightarrow> ('c, 'v) ProviderState" where
  "stateOf w k = (case states w k of None \<Rightarrow> emptyState | Some st \<Rightarrow> st)"

definition initial :: "('k, 'c, 'v, 'e) World" where
  "initial = \<lparr>clock = 0, states = Map.empty, pending = [], settledLog = [], responses = []\<rparr>"

text \<open>
  What can happen: a caller invokes \<open>getState\<close> for a key; an outstanding call of the
  fetch function for a key resolves or rejects; time passes.
\<close>

datatype ('k, 'c, 'v, 'e) event =
    Call 'c 'k
  | Settle 'k "('v, 'e) outcome"
  | Tick nat

fun step :: "int \<Rightarrow> ('k, 'c, 'v, 'e) World \<Rightarrow> ('k, 'c, 'v, 'e) event \<Rightarrow> ('k, 'c, 'v, 'e) World" where
  "step refreshInterval w (Tick d) = w\<lparr>clock := clock w + int d\<rparr>"
| "step refreshInterval w (Call c k) =
     (case getState refreshInterval (clock w) c (stateOf w k) of
        (st, r, fetch) \<Rightarrow>
          w\<lparr>states := (states w)(k \<mapsto> st),
            pending := (if fetch then pending w @ [k] else pending w),
            responses := (case r of Now v \<Rightarrow> responses w @ [(c, k, Data v)]
                          | Await \<Rightarrow> responses w)\<rparr>)"
| "step refreshInterval w (Settle k out) =
     (if k \<in> set (pending w) then
        (case settle (clock w) out (stateOf w k) of
           (st, rs) \<Rightarrow>
             w\<lparr>states := (states w)(k \<mapsto> st),
               pending := remove1 k (pending w),
               settledLog := settledLog w @ [(k, out)],
               responses := responses w @ map (\<lambda>(c, r). (c, k, r)) rs\<rparr>)
      else w)"

definition run ::
    "int \<Rightarrow> ('k, 'c, 'v, 'e) World \<Rightarrow> ('k, 'c, 'v, 'e) event list \<Rightarrow> ('k, 'c, 'v, 'e) World" where
  "run refreshInterval w evs = foldl (step refreshInterval) w evs"

text \<open>The number of calls of the fetch function made so far for a key.\<close>

definition fetchCalls :: "('k, 'c, 'v, 'e) World \<Rightarrow> 'k \<Rightarrow> nat" where
  "fetchCalls w k = count_list (pending w) k + count_list (map fst (settledLog w)) k"

text \<open>An entry is fresh when its age is less than the refresh interval.\<close>

definition isFresh :: "int \<Rightarrow> int \<Rightarrow> ('c, 'v) ProviderState \<Rightarrow> bool" where
  "isFresh refreshInterval now st =
     (case entry st of None \<Rightarrow> False | Some e \<Rightarrow> now - fetchedAt e < refreshInterval)"

fun isSettleOf :: "'k \<Rightarrow> ('k, 'c, 'v, 'e) event \<Rightarrow> bool" where
  "isSettleOf k (Settle k' out) = (k' = k)"
| "isSettleOf k (Call c k') = False"
| "isSettleOf k (Tick d) = False"

fun isCallOf :: "'k \<Rightarrow> ('k, 'c, 'v, 'e) event \<Rightarrow> bool" where
  "isCallOf k (Call c k') = (k' = k)"
| "isCallOf k (Settle k' out) = False"
| "isCallOf k (Tick d) = False"

text \<open>
  What holds of every world reached from \<open>initial\<close>, key by key: the outstanding
  calls of the fetch function for the key are as many as its in-flight record says
  (none or one); while a fetch is in flight the entry is absent or stale; an entry
  exists exactly when some fetch for the key has succeeded.
\<close>

definition consistentAt :: "int \<Rightarrow> ('k, 'c, 'v, 'e) World \<Rightarrow> 'k \<Rightarrow> bool" where
  "consistentAt refreshInterval w k \<longleftrightarrow>
     count_list (pending w) k = (if inFlight (stateOf w k) = None then 0 else 1)
     \<and> (inFlight (stateOf w k) = None \<or> \<not> isFresh refreshInterval (clock w) (stateOf w k))
     \<and> ((entry (stateOf w k) = None) = (\<forall>v. (k, Data v) \<notin> set (settledLog w)))"

section \<open>Properties of the estimator\<close>

lemma slice_last2_Nil: "slice_last2 [] = []"
  by (simp add: slice_last2_def)

lemma slice_last2_single: "slice_last2 [p] = [p]"
  by (simp add: slice_last2_def)

lemma slice_last2_two:
  assumes "2 \<le> length xs"
  shows "slice_last2 xs = [xs ! (length xs - 2), last xs]"
proof -
  obtain n where n: "length xs = Suc (Suc n)"
    using assms by (cases xs; cases "tl xs") auto
  have ne: "xs \<noteq> []" using n by auto
  have "n < length xs" using n by simp
  from Cons_nth_drop_Suc[OF this]
  have d1: "drop n xs = xs ! n # drop (Suc n) xs" by simp
  have "Suc n < length xs" using n by simp
  from Cons_nth_drop_Suc[OF this]
  have d2: "drop (Suc n) xs = xs ! Suc n # drop (Suc (Suc n)) xs" by simp
  have d3: "drop (Suc (Suc n)) xs = []" using n by simp
  have l: "last xs = xs ! Suc n" using n ne by (simp add: last_conv_nth)
  show ?thesis using d1 d2 d3 l n by (simp add: slice_last2_def)
qed

lemma estimate_two:
  assumes "2 \<le> length series"
  shows "estimatedUsersPerMonth addMonth nowTimestamp series =
     (let prevMonthUsers = default0 (snd (series ! (length series - 2)));
          currentMonthTimestamp = fst (last series);
          currentMonthUsers = default0 (snd (last series));
          currentMonthPartMs = nowTimestamp - currentMonthTimestamp
      in if currentMonthPartMs < oneWeekMs then Some prevMonthUsers
         else Some (max (math_round
                           (js_divide
                              (js_plus (of_int prevMonthUsers)
                                 (of_int (math_round
                                    (js_times
                                       (js_divide
                                          (of_int (addMonth currentMonthTimestamp - currentMonthTimestamp))
                                          (of_int currentMonthPartMs))
                                       (of_int currentMonthUsers)))))
                              2))
                   currentMonthUsers))"
  unfolding estimatedUsersPerMonth_def slice_last2_two[OF assms]
  by (simp add: Let_def split: prod.splits)

text \<open>
  Claim C5. An empty series gives the estimate 0, and a series of exactly one point
  gives that point's count as it stands; the series \<open>[[T0, 100]]\<close> gives 100.
\<close>

theorem C5_empty_and_single_point:
  "estimatedUsersPerMonth addMonth nowTimestamp [] = Some 0
   \<and> estimatedUsersPerMonth addMonth nowTimestamp [(t, c)] = c
   \<and> estimatedUsersPerMonth addMonth nowTimestamp [(T0, Some 100)] = Some 100"
  by (simp add: estimatedUsersPerMonth_def slice_last2_Nil slice_last2_single)

text \<open>
  Claim C6. For a series of at least two points whose last point is less than one
  week old (\<open>now - curTimestamp < 7 * 24 * 3600 * 1000\<close>), the estimate is the count
  of the second-to-last point (0 when that count is absent); the series
  \<open>[[T0, 100], [T1, 10]]\<close> with \<open>T1\<close> two days before now gives 100.
\<close>

theorem C6_young_bucket_gives_previous_count:
  "(2 \<le> length series \<and> nowTimestamp - fst (last series) < oneWeekMs
      \<longrightarrow> estimatedUsersPerMonth addMonth nowTimestamp series
            = Some (default0 (snd (series ! (length series - 2)))))
   \<and> estimatedUsersPerMonth addMonth (T1 + 2 * 24 * 3600 * 1000) [(T0, Some 100), (T1, Some 10)]
       = Some 100"
proof (intro conjI impI)
  assume h: "2 \<le> length series \<and> nowTimestamp - fst (last series) < oneWeekMs"
  then show "estimatedUsersPerMonth addMonth nowTimestamp series
            = Some (default0 (snd (series ! (length series - 2))))"
    by (simp add: estimate_two Let_def)
next
  show "estimatedUsersPerMonth addMonth (T1 + 2 * 24 * 3600 * 1000) [(T0, Some 100), (T1, Some 10)]
       = Some 100"
    by (simp add: estimate_two Let_def oneWeekMs_def default0_def)
qed


theorem C6_young_bucket_gives_previous_count_witness:
  "2 \<le> length [(1614556800000::int, Some (100::int)), (1617235200000, Some 10)]
   \<and> (1617235200000 + 2 * (24 * 3600 * 1000))
        - fst (last [(1614556800000::int, Some (100::int)), (1617235200000, Some 10)]) < oneWeekMs
   \<and> estimatedUsersPerMonth (\<lambda>t. t + 30 * (24 * 3600 * 1000)) (1617235200000 + 2 * (24 * 3600 * 1000))
      [(1614556800000, Some 100), (1617235200000, Some 10)] = Some 100"
  using C6_young_bucket_gives_previous_count [of "[(1614556800000, Some 100), (1617235200000, Some 10)]"
               "1617235200000 + 2 * (24 * 3600 * 1000)"
               "\<lambda>t. t + 30 * (24 * 3600 * 1000)"]
  by (simp add: oneWeekMs_def default0_def)

text \<open>
  Claim C7, as it is written, at the series \<open>[[1612137600000, 0], [1614556800000, 95]]\<close>
  (1 February and 1 March 2021) with now = 1615651200000 and a month of 31 days. The
  claim's \<open>projected\<close> is \<open>round (95 * 2678400000 / 1094400000) = round 232.5 = 233\<close>,
  in exact arithmetic and in doubles alike, and its estimate is 117. The code divides
  first: the double nearest to \<open>2678400000 / 1094400000\<close>, times 95, is the double
  just below 232.5, which rounds to 232, and the estimate is 116.
\<close>

theorem C7_operand_order_in_doubles:
  "estimatedUsersPerMonth (addDays 31) 1615651200000
       [(1612137600000, Some 0), (1614556800000, Some 95)] = Some 116
   \<and> max (math_round (of_int (0 + math_round (95 * 2678400000 / 1094400000)) / 2)) 95 = 117
   \<and> max (math_round
            (js_divide
               (js_plus 0 (of_int (math_round (js_divide (js_times 95 2678400000) 1094400000))))
               2))
        95 = 117"
  by code_simp

lemma example_62_arithmetic:
  "js_divide 2592000000 1728000000 = 3 / 2"
  "js_times (3 / 2) 15 = 45 / 2"
  "math_round (45 / 2) = 23"
  "js_plus 100 23 = 123"
  "js_divide 123 2 = 123 / 2"
  "math_round (123 / 2) = 62"
  by code_simp+

text \<open>
  Claim C7, amended. For a series of at least two points whose last point is at least
  one week old, the estimate is \<open>max (round ((prevCount + projected) / 2)) curCount\<close>
  with \<open>projected = round (((nextMonthDate - curTimestamp) / elapsed) * curCount)\<close>,
  the quotient, then the product, then the sum each rounded to a double as the code
  computes them; it is never below \<open>curCount\<close>; and \<open>[[T0, 100], [T1, 15]]\<close> with
  \<open>T1\<close> twenty days before now in a month of 30 days gives 62.
\<close>

theorem C7_extrapolated_estimate:
  "(2 \<le> length series \<and> oneWeekMs \<le> nowTimestamp - fst (last series) \<longrightarrow>
      (let prevCount = default0 (snd (series ! (length series - 2)));
           curTimestamp = fst (last series);
           curCount = default0 (snd (last series));
           elapsedIntoCurrentMonth = nowTimestamp - curTimestamp;
           nextMonthDate = addMonth curTimestamp;
           projected = math_round
                         (js_times
                            (js_divide (of_int (nextMonthDate - curTimestamp))
                               (of_int elapsedIntoCurrentMonth))
                            (of_int curCount))
       in estimatedUsersPerMonth addMonth nowTimestamp series
            = Some (max (math_round (js_divide (js_plus (of_int prevCount) (of_int projected)) 2))
                        curCount)
          \<and> (\<exists>e. estimatedUsersPerMonth addMonth nowTimestamp series = Some e \<and> curCount \<le> e)))
   \<and> (addMonth T1 = T1 + 30 * (24 * 3600 * 1000) \<longrightarrow>
        estimatedUsersPerMonth addMonth (T1 + 20 * (24 * 3600 * 1000)) [(T0, Some 100), (T1, Some 15)]
          = Some 62)"
proof (intro conjI impI)
  assume h: "2 \<le> length series \<and> oneWeekMs \<le> nowTimestamp - fst (last series)"
  then have len: "2 \<le> length series" and old: "\<not> nowTimestamp - fst (last series) < oneWeekMs"
    by auto
  show "let prevCount = default0 (snd (series ! (length series - 2)));
           curTimestamp = fst (last series);
           curCount = default0 (snd (last series));
           elapsedIntoCurrentMonth = nowTimestamp - curTimestamp;
           nextMonthDate = addMonth curTimestamp;
           projected = math_round
                         (js_times
                            (js_divide (of_int (nextMonthDate - curTimestamp))
                               (of_int elapsedIntoCurrentMonth))
                            (of_int curCount))
       in estimatedUsersPerMonth addMonth nowTimestamp series
            = Some (max (math_round (js_divide (js_plus (of_int prevCount) (of_int projected)) 2))
                        curCount)
          \<and> (\<exists>e. estimatedUsersPerMonth addMonth nowTimestamp series = Some e \<and> curCount \<le> e)"
    using old by (simp add: estimate_two[OF len] Let_def)
next
  assume a: "addMonth T1 = T1 + 30 * (24 * 3600 * 1000)"
  show "estimatedUsersPerMonth addMonth (T1 + 20 * (24 * 3600 * 1000)) [(T0, Some 100), (T1, Some 15)]
          = Some 62"
    using a by (simp add: estimate_two Let_def oneWeekMs_def default0_def example_62_arithmetic)
qed

theorem C7_extrapolated_estimate_witness:
  "estimatedUsersPerMonth (addDays 30) (1617235200000 + 20 * (24 * 3600 * 1000))
      [(1614556800000, Some 100), (1617235200000, Some 15)] = Some 62
   \<and> 2 \<le> length [(1614556800000::int, Some (100::int)), (1617235200000, Some 15)]
   \<and> oneWeekMs \<le> (1617235200000 + 20 * (24 * 3600 * 1000))
        - fst (last [(1614556800000::int, Some (100::int)), (1617235200000, Some 15)])
   \<and> addDays 30 1617235200000 = 1617235200000 + 30 * (24 * 3600 * 1000)
   \<and> (15::int) \<le> 62"
  using C7_extrapolated_estimate [of "[(1614556800000, Some 100), (1617235200000, Some 15)]"
               "1617235200000 + 20 * (24 * 3600 * 1000)"
               "addDays 30" 1617235200000 1614556800000]
  by (simp add: oneWeekMs_def addDays_def)

text \<open>
  With two or more points both counts pass through the default, so the estimate is a
  number whatever is missing.
\<close>

lemma estimate_two_numeric:
  "2 \<le> length series \<Longrightarrow> \<exists>n. estimatedUsersPerMonth addMonth nowTimestamp series = Some n"
  by (simp add: estimate_two Let_def)

text \<open>
  Claim C8. A missing count is to be read as 0 in every branch, the single-point
  branch included. The single-point branch has no default: on the series
  \<open>[[1617235200000]]\<close> the estimate is \<open>undefined\<close>, not 0.
\<close>

theorem C8_single_point_missing_count:
  "estimatedUsersPerMonth addMonth nowTimestamp [(1617235200000, None)] = None
   \<and> estimatedUsersPerMonth addMonth nowTimestamp [(1617235200000, None)] \<noteq> Some 0"
  by (simp add: estimatedUsersPerMonth_def slice_last2_single)

section \<open>Properties of the dApps list\<close>












section \<open>Properties of the notifications filter\<close>


















section \<open>Properties of the data providers\<close>

subsection \<open>One call of getState\<close>

lemma getState_entry: "entry (fst (getState R now c st)) = entry st"
  by (simp add: getState_def split: option.splits)

lemma getState_fetch:
  "snd (snd (getState R now c st)) \<longleftrightarrow> inFlight st = None \<and> \<not> isFresh R now st"
  by (simp add: getState_def isFresh_def split: option.splits)

lemma getState_fresh:
  "isFresh R now st \<Longrightarrow> \<exists>e. entry st = Some e \<and> getState R now c st = (st, Now (entryValue e), False)"
  by (auto simp: getState_def isFresh_def split: option.splits)

lemma getState_busy:
  "\<not> isFresh R now st \<Longrightarrow> inFlight st = Some f \<Longrightarrow>
     getState R now c st = (st\<lparr>inFlight := Some \<lparr>awaiting = awaiting f @ [c]\<rparr>\<rparr>, Await, False)"
  by (cases "entry st") (auto simp: getState_def isFresh_def)

lemma getState_absent_idle:
  "entry st = None \<Longrightarrow> inFlight st = None \<Longrightarrow>
     getState R now c st = (st\<lparr>inFlight := Some \<lparr>awaiting = [c]\<rparr>\<rparr>, Await, True)"
  by (simp add: getState_def)

lemma getState_stale_idle:
  "entry st = Some e \<Longrightarrow> \<not> isFresh R now st \<Longrightarrow> inFlight st = None \<Longrightarrow>
     getState R now c st = (st\<lparr>inFlight := Some \<lparr>awaiting = []\<rparr>\<rparr>, Now (entryValue e), True)"
  by (simp add: getState_def isFresh_def)

lemma getState_inFlight_None:
  "inFlight (fst (getState R now c st)) = None \<longleftrightarrow> inFlight st = None \<and> isFresh R now st"
  by (auto simp: getState_def isFresh_def split: option.splits)

lemma isFresh_getState: "isFresh R now (fst (getState R now c st)) = isFresh R now st"
  by (simp add: isFresh_def getState_entry)

subsection \<open>One step of the world\<close>

lemma stateOf_step_Call:
  "stateOf (step R w (Call c k)) k' =
     (if k' = k then fst (getState R (clock w) c (stateOf w k)) else stateOf w k')"
  by (simp add: stateOf_def split: prod.splits)

lemma pending_step_Call:
  "pending (step R w (Call c k)) =
     (if snd (snd (getState R (clock w) c (stateOf w k))) then pending w @ [k] else pending w)"
  by (simp split: prod.splits)

lemma responses_step_Call:
  "responses (step R w (Call c k)) =
     (case fst (snd (getState R (clock w) c (stateOf w k))) of
        Now v \<Rightarrow> responses w @ [(c, k, Data v)] | Await \<Rightarrow> responses w)"
  by (simp split: prod.splits)

lemma others_step_Call:
  "clock (step R w (Call c k)) = clock w" "settledLog (step R w (Call c k)) = settledLog w"
  by (simp_all split: prod.splits)

lemma stateOf_step_Settle:
  "k \<in> set (pending w) \<Longrightarrow>
   stateOf (step R w (Settle k out)) k' =
     (if k' = k then fst (settle (clock w) out (stateOf w k)) else stateOf w k')"
  by (simp add: stateOf_def split: prod.splits)

lemma others_step_Settle:
  "k \<in> set (pending w) \<Longrightarrow> pending (step R w (Settle k out)) = remove1 k (pending w)"
  "k \<in> set (pending w) \<Longrightarrow> settledLog (step R w (Settle k out)) = settledLog w @ [(k, out)]"
  "k \<in> set (pending w) \<Longrightarrow> responses (step R w (Settle k out)) =
      responses w @ map (\<lambda>(c, r). (c, k, r)) (snd (settle (clock w) out (stateOf w k)))"
  "clock (step R w (Settle k out)) = clock w"
  by (simp_all split: prod.splits)

lemma step_Settle_idle: "k \<notin> set (pending w) \<Longrightarrow> step R w (Settle k out) = w"
  by simp

lemma step_Tick:
  "stateOf (step R w (Tick d)) k = stateOf w k" "pending (step R w (Tick d)) = pending w"
  "settledLog (step R w (Tick d)) = settledLog w" "responses (step R w (Tick d)) = responses w"
  "clock (step R w (Tick d)) = clock w + int d"
  by (simp_all add: stateOf_def)

lemma settle_busy:
  "inFlight st = Some f \<Longrightarrow>
     inFlight (fst (settle now out st)) = None
     \<and> snd (settle now out st) = map (\<lambda>c. (c, out)) (awaiting f)
     \<and> entry (fst (settle now out st)) =
         (case out of Data v \<Rightarrow> Some \<lparr>entryValue = v, fetchedAt = now\<rparr> | Error err \<Rightarrow> entry st)"
  by (simp add: settle_def split: outcome.splits)

lemma count_list_remove1:
  "count_list (remove1 k xs) k' =
     (if k' = k \<and> k \<in> set xs then count_list xs k' - 1 else count_list xs k')"
  by (induction xs) auto

lemma isFresh_later: "isFresh R (now + int d) st \<Longrightarrow> isFresh R now st"
  by (auto simp: isFresh_def split: option.splits)

declare step.simps [simp del]

subsection \<open>Every reachable world is consistent\<close>

lemma consistent_initial: "consistentAt R initial k"
  by (simp add: consistentAt_def initial_def stateOf_def emptyState_def)

lemma pending_iff_inFlight:
  "consistentAt R w k \<Longrightarrow> k \<in> set (pending w) \<longleftrightarrow> inFlight (stateOf w k) \<noteq> None"
proof -
  assume c: "consistentAt R w k"
  have "k \<in> set (pending w) \<longleftrightarrow> count_list (pending w) k \<noteq> 0"
    by (simp add: count_list_0_iff)
  then show ?thesis using c by (simp add: consistentAt_def)
qed

lemma consistent_step_Call:
  assumes c: "consistentAt R w k"
  shows "consistentAt R (step R w (Call c' k2)) k"
proof (cases "k2 = k")
  case False
  then show ?thesis
    using c by (simp add: consistentAt_def stateOf_step_Call pending_step_Call others_step_Call)
next
  case True
  let ?st = "stateOf w k"
  let ?g = "getState R (clock w) c' ?st"
  have st': "stateOf (step R w (Call c' k2)) k = fst ?g"
    using True by (simp add: stateOf_step_Call)
  have cnt: "count_list (pending (step R w (Call c' k2))) k
               = count_list (pending w) k + (if inFlight ?st = None \<and> \<not> isFresh R (clock w) ?st then 1 else 0)"
    using True by (simp add: pending_step_Call getState_fetch)
  have c1: "count_list (pending w) k = (if inFlight ?st = None then 0 else 1)"
    and c2: "inFlight ?st = None \<or> \<not> isFresh R (clock w) ?st"
    and c3: "(entry ?st = None) = (\<forall>v. (k, Data v) \<notin> set (settledLog w))"
    using c by (simp_all add: consistentAt_def)
  have p1: "count_list (pending (step R w (Call c' k2))) k = (if inFlight (fst ?g) = None then 0 else 1)"
    unfolding cnt getState_inFlight_None using c1 c2 by auto
  have p2: "inFlight (fst ?g) = None \<or> \<not> isFresh R (clock w) (fst ?g)"
    unfolding getState_inFlight_None isFresh_getState using c2 by auto
  have p3: "(entry (fst ?g) = None) = (\<forall>v. (k, Data v) \<notin> set (settledLog w))"
    unfolding getState_entry by (rule c3)
  show ?thesis
    unfolding consistentAt_def st' others_step_Call using p1 p2 p3 by simp
qed

lemma consistent_step_Settle:
  assumes c: "consistentAt R w k"
  shows "consistentAt R (step R w (Settle k2 out)) k"
proof (cases "k2 \<in> set (pending w)")
  case False
  then show ?thesis using c by (simp add: step_Settle_idle)
next
  case pend: True
  show ?thesis
  proof (cases "k2 = k")
    case False
    then show ?thesis
      using c pend
      by (simp add: consistentAt_def stateOf_step_Settle others_step_Settle count_list_remove1)
  next
    case True
    let ?st = "stateOf w k"
    have kp: "k \<in> set (pending w)" using pend True by simp
    then obtain f where f: "inFlight ?st = Some f"
      using pending_iff_inFlight[OF c] by auto
    note sb = settle_busy[OF f, of "clock w" out]
    have c1: "count_list (pending w) k = 1"
      and c3: "(entry ?st = None) = (\<forall>v. (k, Data v) \<notin> set (settledLog w))"
      using c f by (simp_all add: consistentAt_def)
    have st': "stateOf (step R w (Settle k out)) k = fst (settle (clock w) out ?st)"
      using kp by (simp add: stateOf_step_Settle)
    have p1: "count_list (pending (step R w (Settle k out))) k = 0"
      using kp c1 by (simp add: others_step_Settle count_list_remove1)
    have p3: "(entry (fst (settle (clock w) out ?st)) = None)
                = (\<forall>v. (k, Data v) \<notin> set (settledLog w @ [(k, out)]))"
      using sb c3 by (cases out) auto
    show ?thesis
      unfolding True consistentAt_def st' others_step_Settle(2)[OF kp] p1
      using sb p3 by simp
  qed
qed

lemma consistent_step_Tick:
  assumes c: "consistentAt R w k"
  shows "consistentAt R (step R w (Tick d)) k"
  using c isFresh_later[of R "clock w" d "stateOf w k"]
  by (auto simp: consistentAt_def step_Tick)

lemma consistent_step: "consistentAt R w k \<Longrightarrow> consistentAt R (step R w ev) k"
  by (cases ev) (simp_all only: consistent_step_Call consistent_step_Settle consistent_step_Tick)

lemma consistent_run: "consistentAt R w k \<Longrightarrow> consistentAt R (run R w evs) k"
  unfolding run_def by (induction evs arbitrary: w) (simp_all add: consistent_step)

lemma consistent_reachable: "consistentAt R (run R initial evs) k"
  by (rule consistent_run[OF consistent_initial])

lemma run_Nil: "run R w [] = w"
  by (simp add: run_def)

lemma run_Cons: "run R w (ev # evs) = run R (step R w ev) evs"
  by (simp add: run_def)

lemma run_snoc: "run R w (evs @ [ev]) = step R (run R w evs) ev"
  by (simp add: run_def)

lemma clock_step: "clock w \<le> clock (step R w ev)"
  by (cases ev) (simp_all add: others_step_Call others_step_Settle step_Tick)

lemma clock_run: "clock w \<le> clock (run R w evs)"
proof (induction evs arbitrary: w)
  case Nil
  show ?case by (simp add: run_Nil)
next
  case (Cons ev evs)
  have "clock w \<le> clock (step R w ev)" by (rule clock_step)
  also have "\<dots> \<le> clock (run R (step R w ev) evs)" by (rule Cons.IH)
  finally show ?case by (simp add: run_Cons)
qed

subsection \<open>Callers that arrive while a fetch is in flight\<close>

lemma waiters_kept_step:
  assumes c: "consistentAt R w k"
    and f: "inFlight (stateOf w k) = Some f"
    and ev: "\<not> isSettleOf k ev"
  shows "\<exists>f'. inFlight (stateOf (step R w ev) k) = Some f' \<and> set (awaiting f) \<subseteq> set (awaiting f')"
proof (cases ev)
  case (Call c' k2)
  show ?thesis
  proof (cases "k2 = k")
    case True
    have "\<not> isFresh R (clock w) (stateOf w k)"
      using c f by (simp add: consistentAt_def)
    from getState_busy[OF this f, of c']
    show ?thesis using Call True by (auto simp: stateOf_step_Call)
  next
    case False
    then show ?thesis using Call f by (simp add: stateOf_step_Call)
  qed
next
  case (Settle k2 out)
  then have ne: "k2 \<noteq> k" using ev by simp
  show ?thesis
  proof (cases "k2 \<in> set (pending w)")
    case True
    then show ?thesis using Settle ne f by (simp add: stateOf_step_Settle)
  next
    case False
    then show ?thesis using Settle f by (simp add: step_Settle_idle)
  qed
next
  case (Tick d)
  then show ?thesis using f by (simp add: step_Tick)
qed

lemma waiters_kept_run:
  assumes "consistentAt R w k"
    and "inFlight (stateOf w k) = Some f"
    and "\<not> list_ex (isSettleOf k) evs"
  shows "\<exists>f'. inFlight (stateOf (run R w evs) k) = Some f' \<and> set (awaiting f) \<subseteq> set (awaiting f')"
  using assms
proof (induction evs arbitrary: w f)
  case Nil
  then show ?case by (simp add: run_Nil)
next
  case (Cons ev evs)
  from Cons.prems have ev: "\<not> isSettleOf k ev" and rest: "\<not> list_ex (isSettleOf k) evs"
    by simp_all
  from waiters_kept_step[OF Cons.prems(1) Cons.prems(2) ev]
  obtain f1 where f1: "inFlight (stateOf (step R w ev) k) = Some f1"
    and sub1: "set (awaiting f) \<subseteq> set (awaiting f1)"
    by blast
  have c1: "consistentAt R (step R w ev) k"
    by (rule consistent_step[OF Cons.prems(1)])
  from Cons.IH[OF c1 f1 rest]
  obtain f' where "inFlight (stateOf (run R (step R w ev) evs) k) = Some f'"
    and "set (awaiting f1) \<subseteq> set (awaiting f')"
    by blast
  then show ?case using sub1 by (auto simp: run_Cons)
qed

lemma call_while_in_flight:
  assumes c: "consistentAt R w k" and p: "k \<in> set (pending w)"
  shows "\<exists>ws. inFlight (stateOf w k) = Some \<lparr>awaiting = ws\<rparr>
          \<and> pending (step R w (Call c' k)) = pending w
          \<and> responses (step R w (Call c' k)) = responses w
          \<and> settledLog (step R w (Call c' k)) = settledLog w
          \<and> inFlight (stateOf (step R w (Call c' k)) k) = Some \<lparr>awaiting = ws @ [c']\<rparr>"
proof -
  obtain f where f: "inFlight (stateOf w k) = Some f"
    using pending_iff_inFlight[OF c] p by auto
  have "\<not> isFresh R (clock w) (stateOf w k)"
    using c f by (simp add: consistentAt_def)
  from getState_busy[OF this f, of c']
  show ?thesis
    using f by (simp add: pending_step_Call responses_step_Call others_step_Call stateOf_step_Call)
qed

lemma settle_in_flight:
  assumes c: "consistentAt R w k" and f: "inFlight (stateOf w k) = Some f"
  shows "responses (step R w (Settle k out)) = responses w @ map (\<lambda>c'. (c', k, out)) (awaiting f)
         \<and> k \<notin> set (pending (step R w (Settle k out)))
         \<and> inFlight (stateOf (step R w (Settle k out)) k) = None
         \<and> entry (stateOf (step R w (Settle k out)) k) =
             (case out of Data v \<Rightarrow> Some \<lparr>entryValue = v, fetchedAt = clock w\<rparr>
              | Error err \<Rightarrow> entry (stateOf w k))"
proof -
  have kp: "k \<in> set (pending w)"
    using pending_iff_inFlight[OF c] f by simp
  note sb = settle_busy[OF f, of "clock w" out]
  have c3: "consistentAt R (step R w (Settle k out)) k"
    by (rule consistent_step[OF c])
  have nf: "inFlight (stateOf (step R w (Settle k out)) k) = None"
    using kp sb by (simp add: stateOf_step_Settle)
  then have "k \<notin> set (pending (step R w (Settle k out)))"
    using pending_iff_inFlight[OF c3] by simp
  moreover have "responses (step R w (Settle k out))
                   = responses w @ map (\<lambda>c'. (c', k, out)) (awaiting f)"
    using kp sb by (simp add: others_step_Settle comp_def)
  moreover have "entry (stateOf (step R w (Settle k out)) k) =
             (case out of Data v \<Rightarrow> Some \<lparr>entryValue = v, fetchedAt = clock w\<rparr>
              | Error err \<Rightarrow> entry (stateOf w k))"
    using kp sb by (simp add: stateOf_step_Settle)
  ultimately show ?thesis using nf by blast
qed

text \<open>
  Claim C1. In every world reached from the initial one, at most one call of the
  fetch function is outstanding for a key. A caller that arrives while a fetch for the
  key is outstanding starts no fetch and is handed nothing at once: it joins the
  callers awaiting that fetch, stays among them whatever else happens before the
  fetch settles, and when the fetch settles every awaiting caller is handed the one
  outcome, value or error.
\<close>

theorem C1_single_flight:
  "count_list (pending (run R initial evs)) k \<le> 1
   \<and> (k \<in> set (pending (run R initial evs)) \<and> \<not> list_ex (isSettleOf k) later \<longrightarrow>
       (let w = run R initial evs;
            w1 = step R w (Call c k);
            w2 = run R w1 later;
            w3 = step R w2 (Settle k out)
        in pending w1 = pending w
           \<and> responses w1 = responses w
           \<and> count_list (pending w2) k = 1
           \<and> (\<exists>f. inFlight (stateOf w2 k) = Some f \<and> c \<in> set (awaiting f)
                  \<and> responses w3 = responses w2 @ map (\<lambda>c'. (c', k, out)) (awaiting f))
           \<and> k \<notin> set (pending w3)))"
proof (intro conjI impI)
  have "consistentAt R (run R initial evs) k" by (rule consistent_reachable)
  then show "count_list (pending (run R initial evs)) k \<le> 1"
    by (simp add: consistentAt_def)
next
  assume h: "k \<in> set (pending (run R initial evs)) \<and> \<not> list_ex (isSettleOf k) later"
  let ?w = "run R initial evs"
  let ?w1 = "step R ?w (Call c k)"
  let ?w2 = "run R ?w1 later"
  let ?w3 = "step R ?w2 (Settle k out)"
  have cw: "consistentAt R ?w k" by (rule consistent_reachable)
  have cw1: "consistentAt R ?w1 k" by (rule consistent_step[OF cw])
  have cw2: "consistentAt R ?w2 k" by (rule consistent_run[OF cw1])
  from h have kp: "k \<in> set (pending ?w)" and ns: "\<not> list_ex (isSettleOf k) later"
    by simp_all
  from call_while_in_flight[OF cw kp, of c] obtain ws where
    a1: "pending ?w1 = pending ?w" and a2: "responses ?w1 = responses ?w"
    and f1: "inFlight (stateOf ?w1 k) = Some \<lparr>awaiting = ws @ [c]\<rparr>"
    by blast
  from waiters_kept_run[OF cw1 f1 ns] obtain f2 where
    f2: "inFlight (stateOf ?w2 k) = Some f2" and sub: "c \<in> set (awaiting f2)"
    by auto
  have a3: "count_list (pending ?w2) k = 1"
    using cw2 f2 by (simp add: consistentAt_def)
  from settle_in_flight[OF cw2 f2, of out]
  have a4: "responses ?w3 = responses ?w2 @ map (\<lambda>c'. (c', k, out)) (awaiting f2)"
    and a5: "k \<notin> set (pending ?w3)"
    by simp_all
  show "let w = run R initial evs;
            w1 = step R w (Call c k);
            w2 = run R w1 later;
            w3 = step R w2 (Settle k out)
        in pending w1 = pending w
           \<and> responses w1 = responses w
           \<and> count_list (pending w2) k = 1
           \<and> (\<exists>f. inFlight (stateOf w2 k) = Some f \<and> c \<in> set (awaiting f)
                  \<and> responses w3 = responses w2 @ map (\<lambda>c'. (c', k, out)) (awaiting f))
           \<and> k \<notin> set (pending w3)"
    unfolding Let_def using a1 a2 a3 a4 a5 f2 sub by blast
qed

subsection \<open>Fresh entries, failed fetches, stale entries\<close>

lemma fetchCalls_step_Call:
  "fetchCalls (step R w (Call c k2)) k =
     fetchCalls w k + (if k2 = k \<and> snd (snd (getState R (clock w) c (stateOf w k2))) then 1 else 0)"
  by (simp add: fetchCalls_def pending_step_Call others_step_Call)

lemma fetchCalls_step_Settle: "fetchCalls (step R w (Settle k2 out)) k = fetchCalls w k"
proof (cases "k2 \<in> set (pending w)")
  case False
  then show ?thesis by (simp add: step_Settle_idle)
next
  case True
  then have "0 < count_list (pending w) k2"
    using count_list_0_iff[of "pending w" k2] by auto
  then show ?thesis
    using True by (auto simp: fetchCalls_def others_step_Settle count_list_remove1)
qed

lemma fetchCalls_step_Tick: "fetchCalls (step R w (Tick d)) k = fetchCalls w k"
  by (simp add: fetchCalls_def step_Tick)

text \<open>A call that finds a fresh entry.\<close>

lemma call_fresh:
  assumes e: "entry (stateOf w k) = Some e" and fr: "clock w - fetchedAt e < R"
  shows "responses (step R w (Call c k)) = responses w @ [(c, k, Data (entryValue e))]"
    and "pending (step R w (Call c k)) = pending w"
    and "fetchCalls (step R w (Call c k)) k' = fetchCalls w k'"
    and "stateOf (step R w (Call c k)) k' = stateOf w k'"
proof -
  have "isFresh R (clock w) (stateOf w k)"
    using e fr by (simp add: isFresh_def)
  from getState_fresh[OF this, of c] e
  have g: "getState R (clock w) c (stateOf w k) = (stateOf w k, Now (entryValue e), False)"
    by simp
  show "responses (step R w (Call c k)) = responses w @ [(c, k, Data (entryValue e))]"
    by (simp add: responses_step_Call g)
  show "pending (step R w (Call c k)) = pending w"
    by (simp add: pending_step_Call g)
  show "fetchCalls (step R w (Call c k)) k' = fetchCalls w k'"
    by (simp add: fetchCalls_step_Call g)
  show "stateOf (step R w (Call c k)) k' = stateOf w k'"
    by (simp add: stateOf_step_Call g)
qed

text \<open>While the entry stays fresh nothing touches it and the fetch function is not called.\<close>

lemma fresh_kept_step:
  assumes c: "consistentAt R w k"
    and e: "entry (stateOf w k) = Some e"
    and fr: "clock (step R w ev) - fetchedAt e < R"
  shows "entry (stateOf (step R w ev) k) = Some e \<and> fetchCalls (step R w ev) k = fetchCalls w k"
proof -
  have "clock w \<le> clock (step R w ev)" by (rule clock_step)
  then have fr0: "clock w - fetchedAt e < R" using fr by simp
  then have fresh: "isFresh R (clock w) (stateOf w k)"
    using e by (simp add: isFresh_def)
  then have idle: "inFlight (stateOf w k) = None"
    using c by (auto simp: consistentAt_def)
  then have np: "k \<notin> set (pending w)"
    using pending_iff_inFlight[OF c] by simp
  show ?thesis
  proof (cases ev)
    case (Call c' k2)
    show ?thesis
    proof (cases "k2 = k")
      case True
      then show ?thesis using Call e call_fresh[OF e fr0] by simp
    next
      case False
      then show ?thesis using Call e by (simp add: stateOf_step_Call fetchCalls_step_Call)
    qed
  next
    case (Settle k2 out)
    show ?thesis
    proof (cases "k2 \<in> set (pending w)")
      case True
      then have "k2 \<noteq> k" using np by auto
      then show ?thesis using Settle True e by (simp add: stateOf_step_Settle fetchCalls_step_Settle)
    next
      case False
      then show ?thesis using Settle e by (simp add: step_Settle_idle)
    qed
  next
    case (Tick d)
    then show ?thesis using e by (simp add: step_Tick fetchCalls_step_Tick)
  qed
qed

lemma fresh_kept_run:
  assumes "consistentAt R w k"
    and "entry (stateOf w k) = Some e"
    and "clock (run R w evs) - fetchedAt e < R"
  shows "entry (stateOf (run R w evs) k) = Some e \<and> fetchCalls (run R w evs) k = fetchCalls w k"
  using assms
proof (induction evs arbitrary: w)
  case Nil
  then show ?case by (simp add: run_Nil)
next
  case (Cons ev evs)
  have "clock (step R w ev) \<le> clock (run R (step R w ev) evs)" by (rule clock_run)
  then have fr1: "clock (step R w ev) - fetchedAt e < R"
    using Cons.prems(3) by (simp add: run_Cons)
  from fresh_kept_step[OF Cons.prems(1) Cons.prems(2) fr1]
  have e1: "entry (stateOf (step R w ev) k) = Some e"
    and n1: "fetchCalls (step R w ev) k = fetchCalls w k"
    by simp_all
  have c1: "consistentAt R (step R w ev) k" by (rule consistent_step[OF Cons.prems(1)])
  have fr2: "clock (run R (step R w ev) evs) - fetchedAt e < R"
    using Cons.prems(3) by (simp add: run_Cons)
  from Cons.IH[OF c1 e1 fr2] n1 show ?case by (simp add: run_Cons)
qed

text \<open>A key with no fetch in flight and no fresh entry stays so until it is called.\<close>

lemma idle_kept_step:
  assumes c: "consistentAt R w k"
    and idle: "inFlight (stateOf w k) = None"
    and st: "\<not> isFresh R (clock w) (stateOf w k)"
    and ev: "\<not> isCallOf k ev"
  shows "stateOf (step R w ev) k = stateOf w k
         \<and> \<not> isFresh R (clock (step R w ev)) (stateOf w k)
         \<and> fetchCalls (step R w ev) k = fetchCalls w k"
proof -
  have np: "k \<notin> set (pending w)"
    using pending_iff_inFlight[OF c] idle by simp
  show ?thesis
  proof (cases ev)
    case (Call c' k2)
    then have "k2 \<noteq> k" using ev by simp
    then show ?thesis using Call st by (simp add: stateOf_step_Call fetchCalls_step_Call others_step_Call)
  next
    case (Settle k2 out)
    show ?thesis
    proof (cases "k2 \<in> set (pending w)")
      case True
      then have "k2 \<noteq> k" using np by auto
      then show ?thesis
        using Settle True st by (simp add: stateOf_step_Settle fetchCalls_step_Settle others_step_Settle)
    next
      case False
      then show ?thesis using Settle st by (simp add: step_Settle_idle)
    qed
  next
    case (Tick d)
    then show ?thesis
      using st isFresh_later[of R "clock w" d "stateOf w k"]
      by (auto simp: step_Tick fetchCalls_step_Tick)
  qed
qed

lemma idle_kept_run:
  assumes "consistentAt R w k"
    and "inFlight (stateOf w k) = None"
    and "\<not> isFresh R (clock w) (stateOf w k)"
    and "\<not> list_ex (isCallOf k) evs"
  shows "stateOf (run R w evs) k = stateOf w k
         \<and> \<not> isFresh R (clock (run R w evs)) (stateOf w k)
         \<and> fetchCalls (run R w evs) k = fetchCalls w k"
  using assms
proof (induction evs arbitrary: w)
  case Nil
  then show ?case by (simp add: run_Nil)
next
  case (Cons ev evs)
  from Cons.prems(4) have ev: "\<not> isCallOf k ev" and rest: "\<not> list_ex (isCallOf k) evs"
    by simp_all
  from idle_kept_step[OF Cons.prems(1) Cons.prems(2) Cons.prems(3) ev]
  have s1: "stateOf (step R w ev) k = stateOf w k"
    and st1: "\<not> isFresh R (clock (step R w ev)) (stateOf w k)"
    and n1: "fetchCalls (step R w ev) k = fetchCalls w k"
    by simp_all
  have c1: "consistentAt R (step R w ev) k" by (rule consistent_step[OF Cons.prems(1)])
  have i1: "inFlight (stateOf (step R w ev) k) = None" using s1 Cons.prems(2) by simp
  have st1': "\<not> isFresh R (clock (step R w ev)) (stateOf (step R w ev) k)" using s1 st1 by simp
  from Cons.IH[OF c1 i1 st1' rest] s1 n1 show ?case by (simp add: run_Cons)
qed

text \<open>A call that finds no fresh entry and no fetch in flight starts one fetch; it is
  handed the stale value if there is one and waits otherwise.\<close>

lemma call_idle:
  assumes idle: "inFlight (stateOf w k) = None"
    and st: "\<not> isFresh R (clock w) (stateOf w k)"
  shows "pending (step R w (Call c k)) = pending w @ [k]"
    and "fetchCalls (step R w (Call c k)) k = fetchCalls w k + 1"
    and "responses (step R w (Call c k)) =
           responses w @ (case entry (stateOf w k) of None \<Rightarrow> []
                          | Some e \<Rightarrow> [(c, k, Data (entryValue e))])"
proof -
  have f: "snd (snd (getState R (clock w) c (stateOf w k)))"
    using idle st by (simp add: getState_fetch)
  show "pending (step R w (Call c k)) = pending w @ [k]"
    using f by (simp add: pending_step_Call)
  show "fetchCalls (step R w (Call c k)) k = fetchCalls w k + 1"
    using f by (simp add: fetchCalls_step_Call)
  show "responses (step R w (Call c k)) =
           responses w @ (case entry (stateOf w k) of None \<Rightarrow> []
                          | Some e \<Rightarrow> [(c, k, Data (entryValue e))])"
  proof (cases "entry (stateOf w k)")
    case None
    from getState_absent_idle[OF None idle, of R "clock w" c]
    show ?thesis using None by (simp add: responses_step_Call)
  next
    case (Some e)
    from getState_stale_idle[OF Some st idle, of c]
    show ?thesis using Some by (simp add: responses_step_Call)
  qed
qed

text \<open>What a rejected fetch leaves behind, up to and including the next call for the key.\<close>

lemma after_failure:
  fixes err and c' and evs2
  assumes c: "consistentAt R w k" and p: "k \<in> set (pending w)"
    and quiet: "\<not> list_ex (isCallOf k) evs2"
  defines "w1 \<equiv> step R w (Settle k (Error err))"
  defines "w2 \<equiv> run R w1 evs2"
  defines "w3 \<equiv> step R w2 (Call c' k)"
  shows "inFlight (stateOf w1 k) = None
    \<and> k \<notin> set (pending w1)
    \<and> (\<exists>f. inFlight (stateOf w k) = Some f
           \<and> responses w1 = responses w @ map (\<lambda>c''. (c'', k, Error err)) (awaiting f))
    \<and> entry (stateOf w1 k) = entry (stateOf w k)
    \<and> stateOf w2 k = stateOf w1 k
    \<and> k \<notin> set (pending w2)
    \<and> pending w3 = pending w2 @ [k]
    \<and> fetchCalls w3 k = fetchCalls w1 k + 1
    \<and> responses w3 = responses w2 @ (case entry (stateOf w k) of None \<Rightarrow> []
                                         | Some e \<Rightarrow> [(c', k, Data (entryValue e))])"
proof -
  obtain f where f: "inFlight (stateOf w k) = Some f"
    using pending_iff_inFlight[OF c] p by auto
  have stale: "\<not> isFresh R (clock w) (stateOf w k)"
    using c f by (simp add: consistentAt_def)
  from settle_in_flight[OF c f, of "Error err"]
  have r1: "responses w1 = responses w @ map (\<lambda>c''. (c'', k, Error err)) (awaiting f)"
    and np1: "k \<notin> set (pending w1)"
    and i1: "inFlight (stateOf w1 k) = None"
    and e1: "entry (stateOf w1 k) = entry (stateOf w k)"
    by (simp_all add: w1_def)
  have c1: "consistentAt R w1 k" unfolding w1_def by (rule consistent_step[OF c])
  have "clock w1 = clock w" by (simp add: w1_def others_step_Settle)
  then have st1: "\<not> isFresh R (clock w1) (stateOf w1 k)"
    using stale e1 by (simp add: isFresh_def)
  from idle_kept_run[OF c1 i1 st1 quiet]
  have s2: "stateOf w2 k = stateOf w1 k"
    and st2: "\<not> isFresh R (clock w2) (stateOf w1 k)"
    by (simp_all add: w2_def)
  have c2: "consistentAt R w2 k" unfolding w2_def by (rule consistent_run[OF c1])
  have i2: "inFlight (stateOf w2 k) = None" using s2 i1 by simp
  have st2': "\<not> isFresh R (clock w2) (stateOf w2 k)" using s2 st2 by simp
  have n2: "fetchCalls w2 k = fetchCalls w1 k"
    using idle_kept_run[OF c1 i1 st1 quiet] by (simp add: w2_def)
  have g3: "\<exists>f. inFlight (stateOf w k) = Some f
           \<and> responses w1 = responses w @ map (\<lambda>c''. (c'', k, Error err)) (awaiting f)"
    using f r1 by blast
  have g6: "k \<notin> set (pending w2)" using pending_iff_inFlight[OF c2] i2 by simp
  have g7: "pending w3 = pending w2 @ [k]"
    unfolding w3_def by (rule call_idle(1)[OF i2 st2'])
  have g8: "fetchCalls w3 k = fetchCalls w1 k + 1"
    unfolding w3_def using call_idle(2)[OF i2 st2', of c'] n2 by simp
  have g9: "responses w3 = responses w2 @ (case entry (stateOf w k) of None \<Rightarrow> []
                                         | Some e \<Rightarrow> [(c', k, Data (entryValue e))])"
    unfolding w3_def using call_idle(3)[OF i2 st2', of c'] s2 e1 by simp
  show ?thesis using i1 np1 g3 e1 s2 g6 g7 g8 g9 by blast
qed

text \<open>
  Claim C2. A call that finds an entry younger than the refresh interval returns the
  entry's value and does not call the fetch function. When two calls for a key fall
  within one TTL window of an entry, whatever happens between them, both return the
  entry's value and the fetch function is not called for the key from the first call
  to the second, the second included.
\<close>

theorem C2_fresh_entry_served_without_fetch:
  "(entry (stateOf wa k) = Some e \<and> clock wa - fetchedAt e < R \<longrightarrow>
      responses (step R wa (Call c k)) = responses wa @ [(c, k, Data (entryValue e))]
      \<and> pending (step R wa (Call c k)) = pending wa
      \<and> fetchCalls (step R wa (Call c k)) k = fetchCalls wa k)
   \<and> (let w = run R initial evs;
           w1 = step R w (Call ca k);
           w2 = run R w1 later;
           w3 = step R w2 (Call cb k)
       in entry (stateOf w k) = Some e \<and> clock w - fetchedAt e < R \<and> clock w2 - fetchedAt e < R \<longrightarrow>
            responses w1 = responses w @ [(ca, k, Data (entryValue e))]
            \<and> responses w3 = responses w2 @ [(cb, k, Data (entryValue e))]
            \<and> fetchCalls w3 k = fetchCalls w2 k
            \<and> fetchCalls w3 k = fetchCalls w k)"
proof (intro conjI impI)
  assume "entry (stateOf wa k) = Some e \<and> clock wa - fetchedAt e < R"
  then have e: "entry (stateOf wa k) = Some e" and fr: "clock wa - fetchedAt e < R"
    by simp_all
  show "responses (step R wa (Call c k)) = responses wa @ [(c, k, Data (entryValue e))]"
    by (rule call_fresh(1)[OF e fr])
  show "pending (step R wa (Call c k)) = pending wa"
    by (rule call_fresh(2)[OF e fr])
  show "fetchCalls (step R wa (Call c k)) k = fetchCalls wa k"
    by (rule call_fresh(3)[OF e fr])
next
  let ?w = "run R initial evs"
  let ?w1 = "step R ?w (Call ca k)"
  let ?w2 = "run R ?w1 later"
  let ?w3 = "step R ?w2 (Call cb k)"
  have "entry (stateOf ?w k) = Some e \<and> clock ?w - fetchedAt e < R \<and> clock ?w2 - fetchedAt e < R \<longrightarrow>
            responses ?w1 = responses ?w @ [(ca, k, Data (entryValue e))]
            \<and> responses ?w3 = responses ?w2 @ [(cb, k, Data (entryValue e))]
            \<and> fetchCalls ?w3 k = fetchCalls ?w2 k
            \<and> fetchCalls ?w3 k = fetchCalls ?w k"
  proof (intro impI)
    assume h: "entry (stateOf ?w k) = Some e \<and> clock ?w - fetchedAt e < R \<and> clock ?w2 - fetchedAt e < R"
    then have e: "entry (stateOf ?w k) = Some e" and fr: "clock ?w - fetchedAt e < R"
      and fr2: "clock ?w2 - fetchedAt e < R"
      by simp_all
    have cw: "consistentAt R ?w k" by (rule consistent_reachable)
    have cw1: "consistentAt R ?w1 k" by (rule consistent_step[OF cw])
    have e1: "entry (stateOf ?w1 k) = Some e"
      using call_fresh(4)[OF e fr, of ca k] e by simp
    have n1: "fetchCalls ?w1 k = fetchCalls ?w k"
      by (rule call_fresh(3)[OF e fr])
    from fresh_kept_run[OF cw1 e1 fr2]
    have e2: "entry (stateOf ?w2 k) = Some e" and n2: "fetchCalls ?w2 k = fetchCalls ?w1 k"
      by simp_all
    have r1: "responses ?w1 = responses ?w @ [(ca, k, Data (entryValue e))]"
      by (rule call_fresh(1)[OF e fr])
    have r3: "responses ?w3 = responses ?w2 @ [(cb, k, Data (entryValue e))]"
      by (rule call_fresh(1)[OF e2 fr2])
    have n3: "fetchCalls ?w3 k = fetchCalls ?w2 k"
      by (rule call_fresh(3)[OF e2 fr2])
    show "responses ?w1 = responses ?w @ [(ca, k, Data (entryValue e))]
            \<and> responses ?w3 = responses ?w2 @ [(cb, k, Data (entryValue e))]
            \<and> fetchCalls ?w3 k = fetchCalls ?w2 k
            \<and> fetchCalls ?w3 k = fetchCalls ?w k"
      using r1 r3 n3 n2 n1 by simp
  qed
  then show "let w = run R initial evs;
           w1 = step R w (Call ca k);
           w2 = run R w1 later;
           w3 = step R w2 (Call cb k)
       in entry (stateOf w k) = Some e \<and> clock w - fetchedAt e < R \<and> clock w2 - fetchedAt e < R \<longrightarrow>
            responses w1 = responses w @ [(ca, k, Data (entryValue e))]
            \<and> responses w3 = responses w2 @ [(cb, k, Data (entryValue e))]
            \<and> fetchCalls w3 k = fetchCalls w2 k
            \<and> fetchCalls w3 k = fetchCalls w k"
    unfolding Let_def .
qed

text \<open>
  Claim C3. When the fetch in flight for a key fails, the in-flight record is cleared,
  every awaiting caller is handed the error, and the cache entry of the key is as it
  was. The next call for the key starts exactly one new fetch and is not handed the
  old error: it is handed the stale value if there is one and awaits the new fetch
  otherwise.
\<close>

theorem C3_failed_fetch_not_cached:
  "(let w = run R initial evs;
        w1 = step R w (Settle k (Error err));
        w2 = run R w1 later;
        w3 = step R w2 (Call c k)
    in k \<in> set (pending w) \<and> \<not> list_ex (isCallOf k) later \<longrightarrow>
         inFlight (stateOf w1 k) = None
         \<and> k \<notin> set (pending w1)
         \<and> (\<exists>f. inFlight (stateOf w k) = Some f
                \<and> responses w1 = responses w @ map (\<lambda>c'. (c', k, Error err)) (awaiting f))
         \<and> entry (stateOf w1 k) = entry (stateOf w k)
         \<and> k \<notin> set (pending w2)
         \<and> pending w3 = pending w2 @ [k]
         \<and> fetchCalls w3 k = fetchCalls w1 k + 1
         \<and> responses w3 = responses w2 @ (case entry (stateOf w k) of None \<Rightarrow> []
                                            | Some e \<Rightarrow> [(c, k, Data (entryValue e))]))"
proof -
  have cw: "consistentAt R (run R initial evs) k" by (rule consistent_reachable)
  show ?thesis
    unfolding Let_def
    using after_failure[OF cw, of later err c] by blast
qed

subsection \<open>Concrete runs\<close>

lemmas provider_eval =
  run_def step.simps getState_def settle_def stateOf_def initial_def emptyState_def fetchCalls_def

theorem C1_single_flight_witness:
  "pending (run 1000 (initial :: (string, nat, nat, string) World) [Call 1 ''tez'']) = [''tez'']
   \<and> list_ex (isSettleOf ''tez'') [Call 7 ''usd'', Tick 20 :: (string, nat, nat, string) event] = False
   \<and> pending (step 1000 (run 1000 (initial :: (string, nat, nat, string) World) [Call 1 ''tez''])
                 (Call 2 ''tez'')) = [''tez'']
   \<and> responses
        (step 1000
           (run 1000
              (step 1000 (run 1000 (initial :: (string, nat, nat, string) World) [Call 1 ''tez''])
                 (Call 2 ''tez''))
              [Call 7 ''usd'', Tick 20])
           (Settle ''tez'' (Data 15)))
      = [(1, ''tez'', Data 15), (2, ''tez'', Data 15)]"
  using C1_single_flight
    [where R = 1000 and k = "''tez''" and c = "2::nat" and out = "Data (15::nat) :: (nat, string) outcome"
       and evs = "[Call 1 ''tez'']" and later = "[Call 7 ''usd'', Tick 20]"]
  by (simp add: provider_eval)

theorem C2_fresh_entry_served_without_fetch_witness:
  "entry (stateOf (run 1000 (initial :: (string, nat, nat, string) World)
                     [Call 1 ''tez'', Settle ''tez'' (Data 15), Tick 10]) ''tez'')
     = Some \<lparr>entryValue = 15, fetchedAt = 0\<rparr>
   \<and> clock (run 1000 (initial :: (string, nat, nat, string) World)
              [Call 1 ''tez'', Settle ''tez'' (Data 15), Tick 10]) = 10
   \<and> clock (run 1000
              (step 1000 (run 1000 (initial :: (string, nat, nat, string) World)
                            [Call 1 ''tez'', Settle ''tez'' (Data 15), Tick 10]) (Call 2 ''tez''))
              [Tick 100, Call 7 ''usd'']) = 110
   \<and> responses
        (step 1000
           (run 1000
              (step 1000 (run 1000 (initial :: (string, nat, nat, string) World)
                            [Call 1 ''tez'', Settle ''tez'' (Data 15), Tick 10]) (Call 2 ''tez''))
              [Tick 100, Call 7 ''usd''])
           (Call 3 ''tez''))
      = [(1, ''tez'', Data 15), (2, ''tez'', Data 15), (3, ''tez'', Data 15)]
   \<and> fetchCalls
        (step 1000
           (run 1000
              (step 1000 (run 1000 (initial :: (string, nat, nat, string) World)
                            [Call 1 ''tez'', Settle ''tez'' (Data 15), Tick 10]) (Call 2 ''tez''))
              [Tick 100, Call 7 ''usd''])
           (Call 3 ''tez'')) ''tez'' = 1"
  using C2_fresh_entry_served_without_fetch
    [where R = 1000 and k = "''tez''" and c = "2::nat" and ca = "2::nat" and cb = "3::nat"
       and e = "\<lparr>entryValue = 15::nat, fetchedAt = 0\<rparr>"
       and wa = "run 1000 (initial :: (string, nat, nat, string) World)
                   [Call 1 ''tez'', Settle ''tez'' (Data 15), Tick 10]"
       and evs = "[Call 1 ''tez'', Settle ''tez'' (Data 15), Tick 10] :: (string, nat, nat, string) event list"
       and later = "[Tick 100, Call 7 ''usd'']"]
  by (simp add: provider_eval)

theorem C3_failed_fetch_not_cached_witness:
  "pending (run 1000 (initial :: (string, nat, nat, string) World) [Call 1 ''tez'', Call 2 ''tez''])
     = [''tez'']
   \<and> list_ex (isCallOf ''tez'') [Tick 5, Call 7 ''usd'' :: (string, nat, nat, string) event] = False
   \<and> responses (step 1000 (run 1000 (initial :: (string, nat, nat, string) World)
                               [Call 1 ''tez'', Call 2 ''tez''])
                   (Settle ''tez'' (Error ''timeout'')))
      = [(1, ''tez'', Error ''timeout''), (2, ''tez'', Error ''timeout'')]
   \<and> entry (stateOf (step 1000 (run 1000 (initial :: (string, nat, nat, string) World)
                                    [Call 1 ''tez'', Call 2 ''tez''])
                        (Settle ''tez'' (Error ''timeout''))) ''tez'') = None
   \<and> pending
        (step 1000
           (run 1000
              (step 1000 (run 1000 (initial :: (string, nat, nat, string) World)
                            [Call 1 ''tez'', Call 2 ''tez''])
                 (Settle ''tez'' (Error ''timeout'')))
              [Tick 5, Call 7 ''usd''])
           (Call 3 ''tez''))
      = [''usd'', ''tez'']"
  using C3_failed_fetch_not_cached
    [where R = 1000 and k = "''tez''" and c = "3::nat" and err = "''timeout''"
       and evs = "[Call 1 ''tez'', Call 2 ''tez''] :: (string, nat, nat, string) event list"
       and later = "[Tick 5, Call 7 ''usd'']"]
  by (simp add: provider_eval)

end
